theory Spec2Isabelle
  imports Main "HOL-Library.AList"
begin

section \<open>ALAP scheduling analysis: the data model\<close>

text \<open>
  The development embeds \<^verbatim>\<open>ALAPScheduleAnalysis.run\<close> of
  \<^verbatim>\<open>qiskit/transpiler/passes/scheduling/scheduling/alap.py\<close>.

  A bit of the circuit is a qubit (a primary resource) or a clbit (a secondary resource),
  identified by its index. The arguments of a node are typed: \<^verbatim>\<open>node.qargs\<close> holds
  qubits and \<^verbatim>\<open>node.cargs\<close> holds clbits.
\<close>

datatype bit = Qubit nat | Clbit nat

text \<open>
  Modelled from the spec: the tuple \<^verbatim>\<open>BaseScheduler.CONDITIONAL_SUPPORTED\<close> and the class
  \<^verbatim>\<open>Measure\<close> are declared outside the file. The operation of a node is its kind tag, one
  of the four kinds of the data model; \<^verbatim>\<open>isinstance(node.op, self.CONDITIONAL_SUPPORTED)\<close>
  is \<open>op node = ConditionSupported\<close> and \<^verbatim>\<open>isinstance(node.op, Measure)\<close> is
  \<open>op node = Measurement\<close>.
\<close>

datatype op_class = Standard | ConditionSupported | Measurement | Directive

record node =
  node_id :: nat
  op :: op_class
  qargs :: "nat list"
  cargs :: "nat list"

text \<open>
  The DAG as far as the pass reads it: the dictionary of quantum registers (name to
  register, a register given by its size), the qubits, the clbits and the operation nodes
  in topological order.
\<close>

record dag =
  qregs :: "(string \<times> nat) list"
  qubits :: "nat list"
  clbits :: "nat list"
  topological_op_nodes :: "node list"

text \<open>
  The property set of the pass manager, as far as the pass reads and writes it. A key
  that is not set reads as \<open>None\<close>.
\<close>

record property_set =
  ps_time_unit :: "string option"
  ps_clbit_write_latency :: "int option"
  ps_node_start_time :: "(node \<times> int) list option"

text \<open>
  The exceptions of the pass: the two \<^verbatim>\<open>TranspilerError\<close>s it raises itself (told apart by
  their message), the \<^verbatim>\<open>KeyError\<close> of a dictionary read at a missing key and the
  \<^verbatim>\<open>ValueError\<close> of \<^verbatim>\<open>max\<close> at an empty sequence.
\<close>

datatype error = TranspilerError string | KeyError | ValueError

text \<open>The local state of the loop: the two dictionaries, in insertion order.\<close>

record sched_state =
  idle_before :: "(bit \<times> int) list"
  node_start_time :: "(node \<times> int) list"

section \<open>The pass\<close>

definition qbits :: "node \<Rightarrow> bit list" where
  "qbits n = map Qubit (qargs n)"

definition cbits :: "node \<Rightarrow> bit list" where
  "cbits n = map Clbit (cargs n)"

text \<open>\<^verbatim>\<open>[idle_before[bit] for bit in bits]\<close>: the first missing key raises.\<close>

fun lookup_all :: "(bit \<times> int) list \<Rightarrow> bit list \<Rightarrow> error + int list" where
  "lookup_all idle [] = Inr []"
| "lookup_all idle (b # bs) =
     (case map_of idle b of
        None \<Rightarrow> Inl KeyError
      | Some v \<Rightarrow> (case lookup_all idle bs of Inl e \<Rightarrow> Inl e | Inr vs \<Rightarrow> Inr (v # vs)))"

text \<open>\<^verbatim>\<open>max(...)\<close> of a sequence: empty raises.\<close>

definition max_list :: "int list \<Rightarrow> error + int" where
  "max_list vs = (case vs of [] \<Rightarrow> Inl ValueError | v # ws \<Rightarrow> Inr (fold max ws v))"

text \<open>\<^verbatim>\<open>max(idle_before[bit] for bit in bits)\<close>\<close>

definition max_idle :: "(bit \<times> int) list \<Rightarrow> bit list \<Rightarrow> error + int" where
  "max_idle idle bits =
     (case lookup_all idle bits of Inl e \<Rightarrow> Inl e | Inr vs \<Rightarrow> max_list vs)"

text \<open>\<^verbatim>\<open>for bit in bits: idle_before[bit] = v\<close>\<close>

definition assign_all :: "bit list \<Rightarrow> int \<Rightarrow> (bit \<times> int) list \<Rightarrow> (bit \<times> int) list" where
  "assign_all bits v idle = fold (\<lambda>b m. AList.update b v m) bits idle"

text \<open>
  The tail of the loop body, lines 81 to 84: every qubit of the node gets \<open>t1\<close>, and
  \<open>t1\<close> is recorded for the node.
\<close>

definition record_node :: "node \<Rightarrow> int \<Rightarrow> sched_state \<Rightarrow> sched_state" where
  "record_node n t1 st =
     \<lparr>idle_before = assign_all (qbits n) t1 (idle_before st),
      node_start_time = AList.update n t1 (node_start_time st)\<rparr>"

text \<open>The loop body after the duration has been read, lines 59 to 84.\<close>

definition schedule_node :: "int \<Rightarrow> node \<Rightarrow> int \<Rightarrow> sched_state \<Rightarrow> error + sched_state" where
  "schedule_node clbit_write_latency n op_duration st =
     (if op n = ConditionSupported then
        (case max_idle (idle_before st) (qbits n) of
           Inl e \<Rightarrow> Inl e
         | Inr t0 \<Rightarrow> Inr (record_node n (t0 + op_duration) st))
      else if op n = Measurement then
        (case max_idle (idle_before st) (qbits n @ cbits n) of
           Inl e \<Rightarrow> Inl e
         | Inr t0 \<Rightarrow>
             Inr (record_node n (t0 + op_duration)
                   (st\<lparr>idle_before :=
                         assign_all (cbits n) (t0 + (op_duration - clbit_write_latency))
                           (idle_before st)\<rparr>)))
      else
        (case max_idle (idle_before st) (qbits n @ cbits n) of
           Inl e \<Rightarrow> Inl e
         | Inr t0 \<Rightarrow> Inr (record_node n (t0 + op_duration) st)))"

text \<open>
  The loop, lines 49 to 84, over the nodes in the order they are visited. The duration
  oracle \<^verbatim>\<open>self._get_node_duration\<close> is defined in the base class, outside the file: it is
  a parameter, and its exception ends the loop.
\<close>

fun walk :: "(node \<Rightarrow> dag \<Rightarrow> error + int) \<Rightarrow> dag \<Rightarrow> int \<Rightarrow> node list \<Rightarrow> sched_state
    \<Rightarrow> error + sched_state" where
  "walk get_node_duration g lat [] st = Inr st"
| "walk get_node_duration g lat (n # ns) st =
     (case get_node_duration n g of
        Inl e \<Rightarrow> Inl e
      | Inr op_duration \<Rightarrow>
          (case schedule_node lat n op_duration st of
             Inl e \<Rightarrow> Inl e
           | Inr st' \<Rightarrow> walk get_node_duration g lat ns st'))"

text \<open>\<^verbatim>\<open>{q: 0 for q in dag.qubits + dag.clbits}\<close> and the empty \<^verbatim>\<open>node_start_time\<close>\<close>

definition all_bits :: "dag \<Rightarrow> bit list" where
  "all_bits g = map Qubit (qubits g) @ map Clbit (clbits g)"

definition init_state :: "dag \<Rightarrow> sched_state" where
  "init_state g = \<lparr>idle_before = assign_all (all_bits g) 0 [], node_start_time = []\<rparr>"

text \<open>
  Lines 86 to 93: the circuit duration is the maximum of the clocks, and every recorded
  time is subtracted from it. The pair of the flipped dictionary and the circuit duration
  is the outcome of the computation; the pass stores the dictionary.
\<close>

definition finalize :: "sched_state \<Rightarrow> error + ((node \<times> int) list \<times> int)" where
  "finalize st =
     (case max_list (map snd (idle_before st)) of
        Inl e \<Rightarrow> Inl e
      | Inr circuit_duration \<Rightarrow>
          Inr (map (\<lambda>(n, t1). (n, circuit_duration - t1)) (node_start_time st),
               circuit_duration))"

definition schedule :: "(node \<Rightarrow> dag \<Rightarrow> error + int) \<Rightarrow> dag \<Rightarrow> int
    \<Rightarrow> error + ((node \<times> int) list \<times> int)" where
  "schedule get_node_duration g lat =
     (case walk get_node_duration g lat (rev (topological_op_nodes g)) (init_state g) of
        Inl e \<Rightarrow> Inl e
      | Inr st \<Rightarrow> finalize st)"

text \<open>\<^verbatim>\<open>len(d)\<close> of a dictionary: the number of its keys.\<close>

definition len_dict :: "('k \<times> 'v) list \<Rightarrow> nat" where
  "len_dict d = length (remdups (map fst d))"

definition not_physical :: error where
  "not_physical = TranspilerError ''ALAP schedule runs on physical circuits only''"

definition stretch_durations :: error where
  "stretch_durations =
     TranspilerError ''Scheduling cannot run on circuits with stretch durations.''"

text \<open>\<^verbatim>\<open>self.property_set.get("clbit_write_latency", 0)\<close>\<close>

definition get_clbit_write_latency :: "property_set \<Rightarrow> int" where
  "get_clbit_write_latency ps = (case ps_clbit_write_latency ps of None \<Rightarrow> 0 | Some l \<Rightarrow> l)"

text \<open>
  \<^verbatim>\<open>run\<close>: the outcome (an exception or a normal return) and the property set after the
  call. The property set is the only state the pass writes, and it writes it once, in its
  last statement.
\<close>

definition run :: "(node \<Rightarrow> dag \<Rightarrow> error + int) \<Rightarrow> dag \<Rightarrow> property_set
    \<Rightarrow> (error + unit) \<times> property_set" where
  "run get_node_duration g ps =
     (if len_dict (qregs g) \<noteq> 1 \<or> map_of (qregs g) ''q'' = None then
        (Inl not_physical, ps)
      else if ps_time_unit ps = Some ''stretch'' then
        (Inl stretch_durations, ps)
      else
        (let clbit_write_latency = get_clbit_write_latency ps
         in case schedule get_node_duration g clbit_write_latency of
              Inl e \<Rightarrow> (Inl e, ps)
            | Inr (start_times, circuit_duration) \<Rightarrow>
                (Inr (), ps\<lparr>ps_node_start_time := Some start_times\<rparr>)))"


section \<open>Specification vocabulary and example inputs\<close>

text \<open>
  \<open>is_max_clock idle bits t\<close>: \<open>t\<close> is the maximum of \<^verbatim>\<open>idle_before[b]\<close> over the bits
  \<open>b\<close> of \<open>bits\<close>, every one of which has a clock.
\<close>

definition is_max_clock :: "(bit \<times> int) list \<Rightarrow> bit list \<Rightarrow> int \<Rightarrow> bool" where
  "is_max_clock idle bits t \<longleftrightarrow>
     (\<exists>b\<in>set bits. map_of idle b = Some t) \<and>
     (\<forall>b\<in>set bits. \<exists>v. map_of idle b = Some v \<and> v \<le> t)"

text \<open>
  \<open>clocks_cover st\<close>: no qubit clock is negative, and every recorded time is nonnegative
  and at most the clock of some qubit.
\<close>

definition clocks_cover :: "sched_state \<Rightarrow> bool" where
  "clocks_cover st \<longleftrightarrow>
     (\<forall>q v. map_of (idle_before st) (Qubit q) = Some v \<longrightarrow> 0 \<le> v) \<and>
     (\<forall>n t1. map_of (node_start_time st) n = Some t1 \<longrightarrow>
        0 \<le> t1 \<and> (\<exists>q v. map_of (idle_before st) (Qubit q) = Some v \<and> t1 \<le> v))"

text \<open>Example nodes: a measurement, a barrier, two gates and an operation on a clbit alone.\<close>

definition ex_meas :: node where
  "ex_meas = \<lparr>node_id = 0, op = Measurement, qargs = [0], cargs = [0]\<rparr>"

definition ex_barrier :: node where
  "ex_barrier = \<lparr>node_id = 1, op = Directive, qargs = [0], cargs = [0]\<rparr>"

definition ex_gate_b :: node where
  "ex_gate_b = \<lparr>node_id = 2, op = ConditionSupported, qargs = [0], cargs = []\<rparr>"

definition ex_gate_a :: node where
  "ex_gate_a = \<lparr>node_id = 3, op = ConditionSupported, qargs = [0], cargs = []\<rparr>"

definition ex_store :: node where
  "ex_store = \<lparr>node_id = 4, op = Directive, qargs = [], cargs = [0]\<rparr>"

text \<open>An example duration oracle: a table from node identities to durations.\<close>

definition table_duration :: "(nat \<times> int) list \<Rightarrow> node \<Rightarrow> dag \<Rightarrow> error + int" where
  "table_duration tbl n g =
     (case map_of tbl (node_id n) of
        None \<Rightarrow> Inl (TranspilerError ''Duration not found'')
      | Some d \<Rightarrow> Inr d)"

text \<open>Example DAGs over one qubit and one clbit, and example property sets.\<close>

definition ex_dag :: "node list \<Rightarrow> dag" where
  "ex_dag ns = \<lparr>qregs = [(''q'', 1)], qubits = [0], clbits = [0], topological_op_nodes = ns\<rparr>"

definition ex_dag_two_regs :: dag where
  "ex_dag_two_regs =
     \<lparr>qregs = [(''q'', 1), (''r'', 1)], qubits = [0, 1], clbits = [],
      topological_op_nodes = [ex_gate_a]\<rparr>"

definition ex_dag_renamed :: dag where
  "ex_dag_renamed =
     \<lparr>qregs = [(''r'', 1)], qubits = [0], clbits = [], topological_op_nodes = [ex_gate_a]\<rparr>"

definition ex_ps :: property_set where
  "ex_ps = \<lparr>ps_time_unit = Some ''dt'', ps_clbit_write_latency = None,
            ps_node_start_time = None\<rparr>"

definition ex_ps_stretch :: property_set where
  "ex_ps_stretch = \<lparr>ps_time_unit = Some ''stretch'', ps_clbit_write_latency = None,
                    ps_node_start_time = None\<rparr>"

definition ex_clocks :: sched_state where
  "ex_clocks = \<lparr>idle_before = [(Qubit 0, 3), (Clbit 0, 7)], node_start_time = []\<rparr>"

section \<open>Auxiliary facts\<close>

subsection \<open>Dictionary reads and writes\<close>

lemma map_of_assign_all:
  "map_of (assign_all bs v al) x = (if x \<in> set bs then Some v else map_of al x)"
  unfolding assign_all_def
  by (induction bs arbitrary: al) (auto simp: AList.update_conv')

lemma keys_assign_all: "fst ` set (assign_all bs v al) = set bs \<union> fst ` set al"
  unfolding assign_all_def
  by (induction bs arbitrary: al) (auto simp: AList.dom_update)

lemma distinct_assign_all:
  "distinct (map fst al) \<Longrightarrow> distinct (map fst (assign_all bs v al))"
  unfolding assign_all_def
  by (induction bs arbitrary: al) (auto simp: AList.distinct_update)

lemma lookup_all_present:
  "\<forall>b\<in>set bs. map_of idle b \<noteq> None \<Longrightarrow>
     lookup_all idle bs = Inr (map (\<lambda>b. the (map_of idle b)) bs)"
  by (induction bs) auto

lemma lookup_all_InrD:
  "lookup_all idle bs = Inr vs \<Longrightarrow>
     (\<forall>b\<in>set bs. map_of idle b \<noteq> None) \<and> vs = map (\<lambda>b. the (map_of idle b)) bs"
  by (induction bs arbitrary: vs) (auto split: option.splits sum.splits)

lemma lookup_all_Inr:
  "lookup_all idle bs = Inr vs \<longleftrightarrow>
     (\<forall>b\<in>set bs. map_of idle b \<noteq> None) \<and> vs = map (\<lambda>b. the (map_of idle b)) bs"
  using lookup_all_present lookup_all_InrD by blast

lemma fold_max_Max: "fold max ws (v::int) = Max (insert v (set ws))"
  using Max.set_eq_fold [of v ws] by simp

lemma max_list_Inr: "max_list vs = Inr m \<longleftrightarrow> vs \<noteq> [] \<and> m = Max (set vs)"
  by (cases vs) (auto simp: max_list_def fold_max_Max)

lemma max_idle_Inr: "max_idle idle bs = Inr t \<longleftrightarrow> is_max_clock idle bs t"
proof
  assume "max_idle idle bs = Inr t"
  then obtain vs where vs: "lookup_all idle bs = Inr vs" and m: "max_list vs = Inr t"
    by (auto simp: max_idle_def split: sum.splits)
  from vs have pres: "\<forall>b\<in>set bs. map_of idle b \<noteq> None"
    and vs_eq: "vs = map (\<lambda>b. the (map_of idle b)) bs"
    by (simp_all add: lookup_all_Inr)
  from m have ne: "vs \<noteq> []" and t: "t = Max (set vs)" by (simp_all add: max_list_Inr)
  have "t \<in> set vs" using ne t by simp
  then obtain b where b: "b \<in> set bs" "t = the (map_of idle b)" using vs_eq by auto
  with pres have "map_of idle b = Some t" by auto
  moreover have "\<exists>v. map_of idle c = Some v \<and> v \<le> t" if "c \<in> set bs" for c
  proof -
    from pres that obtain v where v: "map_of idle c = Some v" by auto
    then have "v \<in> set vs" using that vs_eq by force
    then have "v \<le> t" using t by simp
    with v show ?thesis by simp
  qed
  ultimately show "is_max_clock idle bs t" using b(1) by (auto simp: is_max_clock_def)
next
  assume a: "is_max_clock idle bs t"
  define vs where "vs = map (\<lambda>b. the (map_of idle b)) bs"
  from a have pres: "\<forall>b\<in>set bs. map_of idle b \<noteq> None" by (fastforce simp: is_max_clock_def)
  then have l: "lookup_all idle bs = Inr vs" by (simp add: lookup_all_Inr vs_def)
  from a obtain b where b: "b \<in> set bs" "map_of idle b = Some t" by (auto simp: is_max_clock_def)
  then have tin: "t \<in> set vs" by (force simp: vs_def)
  have "\<forall>v\<in>set vs. v \<le> t" using a by (fastforce simp: is_max_clock_def vs_def)
  with tin have "Max (set vs) = t" by (intro Max_eqI) auto
  moreover have "vs \<noteq> []" using tin by auto
  ultimately have "max_list vs = Inr t" by (simp add: max_list_Inr)
  with l show "max_idle idle bs = Inr t" by (simp add: max_idle_def)
qed

lemma idle_record_node [simp]:
  "idle_before (record_node n t1 st) = assign_all (qbits n) t1 (idle_before st)"
  by (simp add: record_node_def)

lemma nst_record_node [simp]:
  "node_start_time (record_node n t1 st) = AList.update n t1 (node_start_time st)"
  by (simp add: record_node_def)

lemma Qubit_in_qbits [simp]: "Qubit q \<in> set (qbits n) \<longleftrightarrow> q \<in> set (qargs n)"
  by (auto simp: qbits_def)

lemma Clbit_in_cbits [simp]: "Clbit c \<in> set (cbits n) \<longleftrightarrow> c \<in> set (cargs n)"
  by (auto simp: cbits_def)

lemma Clbit_notin_qbits [simp]: "Clbit c \<notin> set (qbits n)"
  by (auto simp: qbits_def)

lemma Qubit_notin_cbits [simp]: "Qubit q \<notin> set (cbits n)"
  by (auto simp: cbits_def)

lemma is_max_clock_cong:
  assumes "\<forall>b\<in>set bs. map_of idle2 b = map_of idle b"
  shows "is_max_clock idle2 bs t = is_max_clock idle bs t"
  using assms by (simp add: is_max_clock_def)

lemma schedule_node_cond:
  assumes "op n = ConditionSupported"
    and "is_max_clock (idle_before st) (qbits n) t0"
  shows "schedule_node lat n d st = Inr (record_node n (t0 + d) st)"
  using assms by (simp add: schedule_node_def max_idle_Inr [symmetric])

lemma schedule_node_Inr:
  assumes "schedule_node lat n d st = Inr st'"
  obtains t0 where
    "is_max_clock (idle_before st) (if op n = ConditionSupported then qbits n else qbits n @ cbits n) t0"
    "node_start_time st' = AList.update n (t0 + d) (node_start_time st)"
    "idle_before st' = assign_all (qbits n) (t0 + d)
       (if op n = Measurement then assign_all (cbits n) (t0 + (d - lat)) (idle_before st)
        else idle_before st)"
proof -
  let ?bits = "if op n = ConditionSupported then qbits n else qbits n @ cbits n"
  from assms obtain t0 where m: "max_idle (idle_before st) ?bits = Inr t0"
    by (auto simp: schedule_node_def split: if_splits sum.splits)
  with assms have "node_start_time st' = AList.update n (t0 + d) (node_start_time st)"
    and "idle_before st' = assign_all (qbits n) (t0 + d)
       (if op n = Measurement then assign_all (cbits n) (t0 + (d - lat)) (idle_before st)
        else idle_before st)"
    by (auto simp: schedule_node_def split: if_splits)
  with m that show thesis by (simp add: max_idle_Inr)
qed

lemma walk_append:
  "walk gd g lat (xs @ ys) st =
     (case walk gd g lat xs st of Inl e \<Rightarrow> Inl e | Inr st' \<Rightarrow> walk gd g lat ys st')"
  by (induction xs arbitrary: st) (auto split: sum.splits)

lemma walk_Cons_Inr:
  assumes "walk gd g lat (n # ns) st = Inr st'"
  obtains d st1 where "gd n g = Inr d" "schedule_node lat n d st = Inr st1"
    "walk gd g lat ns st1 = Inr st'"
  using assms by (auto split: sum.splits)

subsection \<open>The keys of the clock dictionary\<close>

lemma schedule_node_keys:
  assumes "schedule_node lat n d st = Inr st'"
  shows "fst ` set (idle_before st') = fst ` set (idle_before st)"
proof -
  from assms obtain t0 where
    m: "is_max_clock (idle_before st) (if op n = ConditionSupported then qbits n else qbits n @ cbits n) t0"
    and i: "idle_before st' = assign_all (qbits n) (t0 + d)
       (if op n = Measurement then assign_all (cbits n) (t0 + (d - lat)) (idle_before st)
        else idle_before st)"
    by (rule schedule_node_Inr)
  have pres: "b \<in> fst ` set (idle_before st)"
    if "b \<in> set (if op n = ConditionSupported then qbits n else qbits n @ cbits n)" for b
  proof -
    from m that obtain v where "map_of (idle_before st) b = Some v"
      unfolding is_max_clock_def by blast
    then show ?thesis by (metis map_of_SomeD fst_conv image_eqI)
  qed
  show ?thesis
    unfolding i using pres by (auto simp: keys_assign_all split: if_splits)
qed

lemma schedule_node_distinct:
  assumes "schedule_node lat n d st = Inr st'" "distinct (map fst (idle_before st))"
  shows "distinct (map fst (idle_before st'))"
  using assms by (elim schedule_node_Inr) (simp add: distinct_assign_all)

lemma walk_keys:
  "walk gd g lat ns st = Inr st' \<Longrightarrow> fst ` set (idle_before st') = fst ` set (idle_before st)"
proof (induction ns arbitrary: st)
  case Nil then show ?case by simp
next
  case (Cons n ns)
  from Cons.prems obtain d st1 where "schedule_node lat n d st = Inr st1"
    "walk gd g lat ns st1 = Inr st'" by (rule walk_Cons_Inr)
  then show ?case using Cons.IH schedule_node_keys by metis
qed

lemma walk_distinct:
  "walk gd g lat ns st = Inr st' \<Longrightarrow> distinct (map fst (idle_before st))
     \<Longrightarrow> distinct (map fst (idle_before st'))"
proof (induction ns arbitrary: st)
  case Nil then show ?case by simp
next
  case (Cons n ns)
  from Cons.prems(1) obtain d st1 where "schedule_node lat n d st = Inr st1"
    "walk gd g lat ns st1 = Inr st'" by (rule walk_Cons_Inr)
  then show ?case using Cons.IH Cons.prems(2) schedule_node_distinct by metis
qed

lemma init_keys: "fst ` set (idle_before (init_state g)) = set (all_bits g)"
  by (simp add: init_state_def keys_assign_all)

lemma init_distinct: "distinct (map fst (idle_before (init_state g)))"
  by (simp add: init_state_def distinct_assign_all)

lemma init_clock: "map_of (idle_before (init_state g)) b = Some v \<Longrightarrow> v = 0"
  by (simp add: init_state_def map_of_assign_all split: if_splits)

subsection \<open>The recorded nodes\<close>

lemma walk_recorded_other:
  "walk gd g lat ns st = Inr st' \<Longrightarrow> n \<notin> set ns
     \<Longrightarrow> map_of (node_start_time st') n = map_of (node_start_time st) n"
proof (induction ns arbitrary: st)
  case Nil then show ?case by simp
next
  case (Cons k ns)
  from Cons.prems(1) obtain d st1 where s: "schedule_node lat k d st = Inr st1"
    and w: "walk gd g lat ns st1 = Inr st'" by (rule walk_Cons_Inr)
  from s have "map_of (node_start_time st1) n = map_of (node_start_time st) n"
    using Cons.prems(2) by (elim schedule_node_Inr) (simp add: AList.update_conv')
  with Cons.IH [OF w] Cons.prems(2) show ?case by simp
qed

lemma walk_recorded_keys:
  "walk gd g lat ns st = Inr st'
     \<Longrightarrow> fst ` set (node_start_time st') = fst ` set (node_start_time st) \<union> set ns"
proof (induction ns arbitrary: st)
  case Nil then show ?case by simp
next
  case (Cons k ns)
  from Cons.prems(1) obtain d st1 where s: "schedule_node lat k d st = Inr st1"
    and w: "walk gd g lat ns st1 = Inr st'" by (rule walk_Cons_Inr)
  from s have "fst ` set (node_start_time st1) = insert k (fst ` set (node_start_time st))"
    by (elim schedule_node_Inr) (simp add: AList.dom_update)
  with Cons.IH [OF w] show ?case by auto
qed

subsection \<open>The finalizer\<close>

lemma finalize_Inr:
  assumes "finalize st = Inr (m, cd)" "distinct (map fst (idle_before st))"
    "fst ` set (idle_before st) = set bits"
  shows "is_max_clock (idle_before st) bits cd"
    and "m = map (\<lambda>(n, t1). (n, cd - t1)) (node_start_time st)"
proof -
  from assms(1) have ml: "max_list (map snd (idle_before st)) = Inr cd"
    and m: "m = map (\<lambda>(n, t1). (n, cd - t1)) (node_start_time st)"
    by (auto simp: finalize_def split: sum.splits)
  from ml have ne: "idle_before st \<noteq> []" and cd: "cd = Max (snd ` set (idle_before st))"
    by (auto simp: max_list_Inr)
  have "cd \<in> snd ` set (idle_before st)"
    unfolding cd using ne by (intro Max_in) auto
  then obtain b where b: "(b, cd) \<in> set (idle_before st)" by auto
  with assms(2) have "map_of (idle_before st) b = Some cd" by simp
  moreover from b assms(3) have "b \<in> set bits" by force
  moreover have "\<exists>v. map_of (idle_before st) c = Some v \<and> v \<le> cd" if "c \<in> set bits" for c
  proof -
    from that assms(3) obtain v where v: "(c, v) \<in> set (idle_before st)" by force
    then have "v \<le> cd" unfolding cd by (intro Max_ge) force+
    moreover from v assms(2) have "map_of (idle_before st) c = Some v" by simp
    ultimately show ?thesis by simp
  qed
  ultimately show "is_max_clock (idle_before st) bits cd"
    unfolding is_max_clock_def by blast
  show "m = map (\<lambda>(n, t1). (n, cd - t1)) (node_start_time st)" by (rule m)
qed

lemma map_of_flip:
  "map_of (map (\<lambda>(n, t1). (n, cd - t1)) nst) n = map_option (\<lambda>t1. cd - t1) (map_of nst n)"
  by (induction nst) auto

subsection \<open>The effect of one node on the clocks\<close>

lemma is_max_clockD:
  "is_max_clock idle bs t \<Longrightarrow> b \<in> set bs \<Longrightarrow> \<exists>v. map_of idle b = Some v \<and> v \<le> t"
  by (simp add: is_max_clock_def)

lemma schedule_node_clock:
  assumes "schedule_node lat n d st = Inr st'"
  obtains t0 where
    "is_max_clock (idle_before st)
       (if op n = ConditionSupported then qbits n else qbits n @ cbits n) t0"
    "map_of (node_start_time st') = (map_of (node_start_time st))(n \<mapsto> t0 + d)"
    "\<forall>b. map_of (idle_before st') b =
       (if b \<in> set (qbits n) then Some (t0 + d)
        else if op n = Measurement \<and> b \<in> set (cbits n) then Some (t0 + (d - lat))
        else map_of (idle_before st) b)"
proof -
  from assms obtain t0 where
    m: "is_max_clock (idle_before st)
       (if op n = ConditionSupported then qbits n else qbits n @ cbits n) t0"
    and r: "node_start_time st' = AList.update n (t0 + d) (node_start_time st)"
    and i: "idle_before st' = assign_all (qbits n) (t0 + d)
       (if op n = Measurement then assign_all (cbits n) (t0 + (d - lat)) (idle_before st)
        else idle_before st)"
    by (rule schedule_node_Inr)
  have "map_of (node_start_time st') = (map_of (node_start_time st))(n \<mapsto> t0 + d)"
    by (simp add: r AList.update_conv')
  moreover have "\<forall>b. map_of (idle_before st') b =
       (if b \<in> set (qbits n) then Some (t0 + d)
        else if op n = Measurement \<and> b \<in> set (cbits n) then Some (t0 + (d - lat))
        else map_of (idle_before st) b)"
    by (simp add: i map_of_assign_all)
  ultimately show thesis using m that by blast
qed

lemma schedule_node_mono:
  assumes "schedule_node lat n d st = Inr st'" and "0 \<le> d"
    and "op n = Measurement \<longrightarrow> lat \<le> d"
    and "map_of (idle_before st) b = Some v"
  shows "\<exists>v'. map_of (idle_before st') b = Some v' \<and> v \<le> v'"
proof -
  let ?bits = "if op n = ConditionSupported then qbits n else qbits n @ cbits n"
  from assms(1) obtain t0 where
    m: "is_max_clock (idle_before st) ?bits t0"
    and r: "map_of (node_start_time st') = (map_of (node_start_time st))(n \<mapsto> t0 + d)"
    and i: "\<forall>b. map_of (idle_before st') b =
       (if b \<in> set (qbits n) then Some (t0 + d)
        else if op n = Measurement \<and> b \<in> set (cbits n) then Some (t0 + (d - lat))
        else map_of (idle_before st) b)"
    by (rule schedule_node_clock)
  have le: "v \<le> t0" if "b \<in> set ?bits"
    using is_max_clockD [OF m that] assms(4) by simp
  show ?thesis
  proof (cases "b \<in> set (qbits n)")
    case True
    then have "b \<in> set ?bits" by simp
    with le assms(2) True show ?thesis by (simp add: i)
  next
    case False
    show ?thesis
    proof (cases "op n = Measurement \<and> b \<in> set (cbits n)")
      case True
      then have "b \<in> set ?bits" by simp
      with le assms(3) True False show ?thesis by (simp add: i)
    next
      case False
      with \<open>b \<notin> set (qbits n)\<close> assms(4) show ?thesis by (auto simp: i)
    qed
  qed
qed

lemma schedule_node_qubit_mono:
  assumes "schedule_node lat n d st = Inr st'" and "0 \<le> d"
    and "map_of (idle_before st) (Qubit q) = Some v"
  shows "\<exists>v'. map_of (idle_before st') (Qubit q) = Some v' \<and> v \<le> v'"
proof -
  let ?bits = "if op n = ConditionSupported then qbits n else qbits n @ cbits n"
  from assms(1) obtain t0 where
    m: "is_max_clock (idle_before st) ?bits t0"
    and r: "map_of (node_start_time st') = (map_of (node_start_time st))(n \<mapsto> t0 + d)"
    and i: "\<forall>b. map_of (idle_before st') b =
       (if b \<in> set (qbits n) then Some (t0 + d)
        else if op n = Measurement \<and> b \<in> set (cbits n) then Some (t0 + (d - lat))
        else map_of (idle_before st) b)"
    by (rule schedule_node_clock)
  show ?thesis
  proof (cases "q \<in> set (qargs n)")
    case True
    then have "Qubit q \<in> set ?bits" by simp
    from is_max_clockD [OF m this] assms(3) have "v \<le> t0" by simp
    with assms(2) True show ?thesis by (simp add: i)
  next
    case False
    with assms(3) show ?thesis by (simp add: i)
  qed
qed

lemma walk_qubit_mono:
  assumes "walk gd g lat ns st = Inr st'"
    and "\<forall>n\<in>set ns. \<forall>d. gd n g = Inr d \<longrightarrow> 0 \<le> d"
    and "map_of (idle_before st) (Qubit q) = Some v"
  shows "\<exists>v'. map_of (idle_before st') (Qubit q) = Some v' \<and> v \<le> v'"
  using assms
proof (induction ns arbitrary: st v)
  case Nil
  then show ?case by simp
next
  case (Cons k ns)
  from Cons.prems(1) obtain d st1 where d: "gd k g = Inr d"
    and s: "schedule_node lat k d st = Inr st1"
    and w: "walk gd g lat ns st1 = Inr st'" by (rule walk_Cons_Inr)
  from Cons.prems(2) d have "0 \<le> d" by simp
  from schedule_node_qubit_mono [OF s this Cons.prems(3)] obtain v1
    where v1: "map_of (idle_before st1) (Qubit q) = Some v1" "v \<le> v1" by blast
  from Cons.prems(2) have "\<forall>n\<in>set ns. \<forall>d. gd n g = Inr d \<longrightarrow> 0 \<le> d" by simp
  from Cons.IH [OF w this v1(1)] v1(2) show ?case by force
qed

lemma walk_append_Inr:
  assumes "walk gd g lat (xs @ ys) st = Inr st'"
  obtains s1 where "walk gd g lat xs st = Inr s1" "walk gd g lat ys s1 = Inr st'"
  using assms by (auto simp: walk_append split: sum.splits)

lemma clocks_cover_init: "clocks_cover (init_state g)"
proof -
  have "\<forall>q v. map_of (idle_before (init_state g)) (Qubit q) = Some v \<longrightarrow> 0 \<le> v"
    using init_clock by fastforce
  moreover have "node_start_time (init_state g) = []" by (simp add: init_state_def)
  ultimately show ?thesis by (simp add: clocks_cover_def)
qed

lemma clocks_cover_step:
  assumes s: "schedule_node lat n d st = Inr st'" and c: "clocks_cover st"
    and ne: "qargs n \<noteq> []" and d: "0 \<le> d"
  shows "clocks_cover st'"
proof -
  let ?bits = "if op n = ConditionSupported then qbits n else qbits n @ cbits n"
  from s obtain t0 where
    m: "is_max_clock (idle_before st) ?bits t0"
    and r: "map_of (node_start_time st') = (map_of (node_start_time st))(n \<mapsto> t0 + d)"
    and i: "\<forall>b. map_of (idle_before st') b =
       (if b \<in> set (qbits n) then Some (t0 + d)
        else if op n = Measurement \<and> b \<in> set (cbits n) then Some (t0 + (d - lat))
        else map_of (idle_before st) b)"
    by (rule schedule_node_clock)
  from ne obtain q0 where q0: "q0 \<in> set (qargs n)" by (cases "qargs n") auto
  then have "Qubit q0 \<in> set ?bits" by simp
  from is_max_clockD [OF m this] obtain v0
    where v0: "map_of (idle_before st) (Qubit q0) = Some v0" "v0 \<le> t0" by blast
  from c v0(1) have "0 \<le> v0" by (simp add: clocks_cover_def)
  with v0(2) d have t1: "0 \<le> t0 + d" by simp
  have new: "map_of (idle_before st') (Qubit q0) = Some (t0 + d)"
    using q0 by (simp add: i)
  have p1: "0 \<le> v" if "map_of (idle_before st') (Qubit q) = Some v" for q v
  proof (cases "q \<in> set (qargs n)")
    case True
    with that t1 show ?thesis by (simp add: i)
  next
    case False
    with that have "map_of (idle_before st) (Qubit q) = Some v" by (simp add: i)
    with c show ?thesis by (simp add: clocks_cover_def)
  qed
  have p2: "0 \<le> t \<and> (\<exists>q v. map_of (idle_before st') (Qubit q) = Some v \<and> t \<le> v)"
    if "map_of (node_start_time st') k = Some t" for k t
  proof (cases "k = n")
    case True
    with that have "t = t0 + d" by (simp add: r)
    with t1 new show ?thesis by blast
  next
    case False
    with that have "map_of (node_start_time st) k = Some t" by (simp add: r)
    with c obtain q v where "0 \<le> t" and qv: "map_of (idle_before st) (Qubit q) = Some v" "t \<le> v"
      unfolding clocks_cover_def by blast
    from schedule_node_qubit_mono [OF s d qv(1)] obtain v'
      where "map_of (idle_before st') (Qubit q) = Some v'" "v \<le> v'" by blast
    with \<open>0 \<le> t\<close> qv(2) show ?thesis by force
  qed
  from p1 p2 show ?thesis unfolding clocks_cover_def by blast
qed

lemma clocks_cover_walk:
  assumes "walk gd g lat ns st = Inr st'" and "clocks_cover st"
    and "\<forall>n\<in>set ns. qargs n \<noteq> []"
    and "\<forall>n\<in>set ns. \<forall>d. gd n g = Inr d \<longrightarrow> 0 \<le> d"
  shows "clocks_cover st'"
  using assms
proof (induction ns arbitrary: st)
  case Nil
  then show ?case by simp
next
  case (Cons k ns)
  from Cons.prems(1) obtain d st1 where d: "gd k g = Inr d"
    and s: "schedule_node lat k d st = Inr st1"
    and w: "walk gd g lat ns st1 = Inr st'" by (rule walk_Cons_Inr)
  from Cons.prems(3,4) d have "qargs k \<noteq> []" "0 \<le> d" by simp_all
  from clocks_cover_step [OF s Cons.prems(2) this] have "clocks_cover st1" .
  moreover from Cons.prems(3,4) have "\<forall>n\<in>set ns. qargs n \<noteq> []"
    "\<forall>n\<in>set ns. \<forall>d. gd n g = Inr d \<longrightarrow> 0 \<le> d" by simp_all
  ultimately show ?case using Cons.IH [OF w] by blast
qed

lemma walk_untouched:
  assumes "walk gd g lat ns st = Inr st'"
    and "\<forall>k\<in>set ns. b \<notin> set (qbits k @ cbits k)"
  shows "map_of (idle_before st') b = map_of (idle_before st) b"
  using assms
proof (induction ns arbitrary: st)
  case Nil
  then show ?case by simp
next
  case (Cons k ns)
  from Cons.prems(1) obtain d st1 where
    s: "schedule_node lat k d st = Inr st1"
    and w: "walk gd g lat ns st1 = Inr st'" by (rule walk_Cons_Inr)
  from s obtain t0 where
    "\<forall>b. map_of (idle_before st1) b =
       (if b \<in> set (qbits k) then Some (t0 + d)
        else if op k = Measurement \<and> b \<in> set (cbits k) then Some (t0 + (d - lat))
        else map_of (idle_before st) b)"
    by (rule schedule_node_clock)
  with Cons.prems(2) have "map_of (idle_before st1) b = map_of (idle_before st) b" by simp
  moreover from Cons.prems(2) have "\<forall>k\<in>set ns. b \<notin> set (qbits k @ cbits k)" by simp
  ultimately show ?case using Cons.IH [OF w] by simp
qed

section \<open>The scheduling policy of a node\<close>




text \<open>
  Claim C2. For a Measurement node with duration \<open>d\<close>, with \<open>t0\<close> the maximum of
  \<^verbatim>\<open>idle_before\<close> over its qubits and clbits and \<open>t1 = t0 + d\<close>: processing the node
  succeeds, records \<open>t1\<close> for the node, sets
  \<^verbatim>\<open>idle_before[c] = t0 + (d - clbit_write_latency)\<close> for each of its clbits and
  \<^verbatim>\<open>idle_before[q] = t1\<close> for each of its qubits, and leaves every other clock as it was.
\<close>

theorem measurement_policy:
  assumes "op n = Measurement"
    and "is_max_clock (idle_before st) (qbits n @ cbits n) t0"
  shows "\<exists>st'. schedule_node lat n d st = Inr st' \<and>
           map_of (node_start_time st') n = Some (t0 + d) \<and>
           (\<forall>c\<in>set (cargs n). map_of (idle_before st') (Clbit c) = Some (t0 + (d - lat))) \<and>
           (\<forall>q\<in>set (qargs n). map_of (idle_before st') (Qubit q) = Some (t0 + d)) \<and>
           (\<forall>b. b \<notin> set (qbits n @ cbits n) \<longrightarrow>
                map_of (idle_before st') b = map_of (idle_before st) b)"
proof -
  from assms(2) have "max_idle (idle_before st) (qbits n @ cbits n) = Inr t0"
    by (simp add: max_idle_Inr)
  with assms(1) show ?thesis
    by (simp add: schedule_node_def map_of_assign_all AList.update_conv')
qed

theorem measurement_policy_witness:
  "is_max_clock (idle_before ex_clocks) (qbits ex_meas @ cbits ex_meas) 7 \<and>
   (\<exists>st'. schedule_node 4 ex_meas 10 ex_clocks = Inr st' \<and>
      map_of (node_start_time st') ex_meas = Some 17 \<and>
      map_of (idle_before st') (Clbit 0) = Some 13 \<and>
      map_of (idle_before st') (Qubit 0) = Some 17)"
proof -
  have k: "op ex_meas = Measurement"
    by (simp add: ex_meas_def)
  have m: "is_max_clock (idle_before ex_clocks) (qbits ex_meas @ cbits ex_meas) 7"
    by (simp add: is_max_clock_def ex_clocks_def ex_meas_def qbits_def cbits_def)
  from measurement_policy [OF k m, of 4 10] obtain st' where
    "schedule_node 4 ex_meas 10 ex_clocks = Inr st'"
    "map_of (node_start_time st') ex_meas = Some (7 + 10)"
    "\<forall>c\<in>set (cargs ex_meas). map_of (idle_before st') (Clbit c) = Some (7 + (10 - 4))"
    "\<forall>q\<in>set (qargs ex_meas). map_of (idle_before st') (Qubit q) = Some (7 + 10)"
    by blast
  then show ?thesis
    using m by (auto simp: ex_meas_def)
qed

text \<open>
  Claim C3. For a ConditionSupported node, with \<open>t0\<close> the maximum of \<^verbatim>\<open>idle_before\<close> over
  its qubits only and \<open>t1 = t0 + d\<close>: processing the node succeeds, whether or not its
  clbits have clocks, records \<open>t1\<close> for the node and sets \<^verbatim>\<open>idle_before[q] = t1\<close> for each
  of its qubits. No clbit's clock is updated, and none is read: from any state with the
  same qubit clocks the node gets the same \<open>t1\<close>, the qubits get the same clocks, and the
  clbit clocks of that state are left as they were.
\<close>

theorem condition_supported_policy:
  assumes "op n = ConditionSupported"
    and "is_max_clock (idle_before st) (qbits n) t0"
  shows "\<exists>st'. schedule_node lat n d st = Inr st' \<and>
           map_of (node_start_time st') n = Some (t0 + d) \<and>
           (\<forall>q\<in>set (qargs n). map_of (idle_before st') (Qubit q) = Some (t0 + d)) \<and>
           (\<forall>b. b \<notin> set (qbits n) \<longrightarrow>
                map_of (idle_before st') b = map_of (idle_before st) b) \<and>
           (\<forall>c. map_of (idle_before st') (Clbit c) = map_of (idle_before st) (Clbit c)) \<and>
           (\<forall>st2. (\<forall>q. map_of (idle_before st2) (Qubit q) = map_of (idle_before st) (Qubit q)) \<longrightarrow>
              (\<exists>st2'. schedule_node lat n d st2 = Inr st2' \<and>
                 map_of (node_start_time st2') n = Some (t0 + d) \<and>
                 (\<forall>q. map_of (idle_before st2') (Qubit q) = map_of (idle_before st') (Qubit q)) \<and>
                 (\<forall>c. map_of (idle_before st2') (Clbit c) = map_of (idle_before st2) (Clbit c))))"
proof -
  let ?st' = "record_node n (t0 + d) st"
  have step: "schedule_node lat n d st = Inr ?st'"
    using assms by (rule schedule_node_cond)
  have a: "map_of (node_start_time ?st') n = Some (t0 + d)"
    by (simp add: AList.update_conv')
  have b: "\<forall>q\<in>set (qargs n). map_of (idle_before ?st') (Qubit q) = Some (t0 + d)"
    by (simp add: map_of_assign_all)
  have c: "\<forall>b. b \<notin> set (qbits n) \<longrightarrow>
             map_of (idle_before ?st') b = map_of (idle_before st) b"
    by (simp add: map_of_assign_all)
  have c': "\<forall>c. map_of (idle_before ?st') (Clbit c) = map_of (idle_before st) (Clbit c)"
    by (simp add: map_of_assign_all)
  have e: "\<exists>st2'. schedule_node lat n d st2 = Inr st2' \<and>
             map_of (node_start_time st2') n = Some (t0 + d) \<and>
             (\<forall>q. map_of (idle_before st2') (Qubit q) = map_of (idle_before ?st') (Qubit q)) \<and>
             (\<forall>c. map_of (idle_before st2') (Clbit c) = map_of (idle_before st2) (Clbit c))"
    if same: "\<forall>q. map_of (idle_before st2) (Qubit q) = map_of (idle_before st) (Qubit q)"
    for st2
  proof -
    have "\<forall>b\<in>set (qbits n). map_of (idle_before st2) b = map_of (idle_before st) b"
      using same by (auto simp: qbits_def)
    from is_max_clock_cong [OF this] have "is_max_clock (idle_before st2) (qbits n) t0"
      using assms(2) by simp
    with assms(1) have "schedule_node lat n d st2 = Inr (record_node n (t0 + d) st2)"
      by (rule schedule_node_cond)
    moreover have "map_of (node_start_time (record_node n (t0 + d) st2)) n = Some (t0 + d)"
      by (simp add: AList.update_conv')
    moreover have "\<forall>q. map_of (idle_before (record_node n (t0 + d) st2)) (Qubit q) =
        map_of (idle_before ?st') (Qubit q)"
      using same by (simp add: map_of_assign_all)
    moreover have "\<forall>c. map_of (idle_before (record_node n (t0 + d) st2)) (Clbit c) =
        map_of (idle_before st2) (Clbit c)"
      by (simp add: map_of_assign_all)
    ultimately show ?thesis by blast
  qed
  from step a b c c' e show ?thesis by blast
qed

theorem condition_supported_policy_witness:
  "is_max_clock (idle_before ex_clocks) (qbits ex_gate_a) 3 \<and>
   (\<exists>st'. schedule_node 0 ex_gate_a 3 ex_clocks = Inr st' \<and>
      map_of (node_start_time st') ex_gate_a = Some 6 \<and>
      map_of (idle_before st') (Qubit 0) = Some 6 \<and>
      map_of (idle_before st') (Clbit 0) = Some 7)"
proof -
  have k: "op ex_gate_a = ConditionSupported"
    by (simp add: ex_gate_a_def)
  have m: "is_max_clock (idle_before ex_clocks) (qbits ex_gate_a) 3"
    by (simp add: is_max_clock_def ex_clocks_def ex_gate_a_def qbits_def)
  from condition_supported_policy [OF k m, of 0 3] obtain st' where
    "schedule_node 0 ex_gate_a 3 ex_clocks = Inr st'"
    "map_of (node_start_time st') ex_gate_a = Some (3 + 3)"
    "\<forall>q\<in>set (qargs ex_gate_a). map_of (idle_before st') (Qubit q) = Some (3 + 3)"
    "\<forall>c. map_of (idle_before st') (Clbit c) = map_of (idle_before ex_clocks) (Clbit c)"
    by blast
  then show ?thesis
    using m by (auto simp: ex_gate_a_def ex_clocks_def)
qed

section \<open>The pass as a whole\<close>

lemma run_Inr:
  assumes "run gd g ps = (Inr u, ps')"
  obtains st m cd where
    "len_dict (qregs g) = 1" "map_of (qregs g) ''q'' \<noteq> None"
    "ps_time_unit ps \<noteq> Some ''stretch''"
    "walk gd g (get_clbit_write_latency ps) (rev (topological_op_nodes g)) (init_state g) = Inr st"
    "finalize st = Inr (m, cd)"
    "schedule gd g (get_clbit_write_latency ps) = Inr (m, cd)"
    "ps' = ps\<lparr>ps_node_start_time := Some m\<rparr>"
proof -
  from assms have p: "len_dict (qregs g) = 1" "map_of (qregs g) ''q'' \<noteq> None"
    "ps_time_unit ps \<noteq> Some ''stretch''"
    by (auto simp: run_def split: if_splits)
  with assms obtain m cd where s: "schedule gd g (get_clbit_write_latency ps) = Inr (m, cd)"
    and ps': "ps' = ps\<lparr>ps_node_start_time := Some m\<rparr>"
    by (auto simp: run_def Let_def split: sum.splits prod.splits)
  from s obtain st where
    "walk gd g (get_clbit_write_latency ps) (rev (topological_op_nodes g)) (init_state g) = Inr st"
    "finalize st = Inr (m, cd)"
    by (auto simp: schedule_def split: sum.splits)
  with p s ps' that show thesis by blast
qed

lemma run_Inl_unchanged: "run gd g ps = (Inl e, ps') \<Longrightarrow> ps' = ps"
  by (auto simp: run_def Let_def split: if_splits sum.splits prod.splits)

lemma run_schedule_Inl:
  assumes "len_dict (qregs g) = 1" "map_of (qregs g) ''q'' \<noteq> None"
    "ps_time_unit ps \<noteq> Some ''stretch''"
    "schedule gd g (get_clbit_write_latency ps) = Inl e"
  shows "run gd g ps = (Inl e, ps)"
  using assms by (auto simp: run_def)

lemma walk_oracle_fails:
  "n \<in> set ns \<Longrightarrow> gd n g = Inl e \<Longrightarrow> \<exists>e'. walk gd g lat ns st = Inl e'"
  by (induction ns arbitrary: st) (auto split: sum.splits)

lemmas ex_defs = ex_meas_def ex_barrier_def ex_gate_a_def ex_gate_b_def ex_store_def
  table_duration_def ex_dag_def ex_dag_two_regs_def ex_dag_renamed_def ex_ps_def
  ex_ps_stretch_def ex_clocks_def

lemmas run_defs = run_def schedule_def finalize_def init_state_def all_bits_def
  assign_all_def schedule_node_def max_idle_def max_list_def record_node_def qbits_def
  cbits_def len_dict_def get_clbit_write_latency_def not_physical_def stretch_durations_def

text \<open>
  Claim C5. When the pass returns, there is a final loop state \<open>st\<close> and a circuit
  duration \<open>cd\<close> such that \<open>cd\<close> is the maximum of the final \<^verbatim>\<open>idle_before\<close> clocks over
  all bits of the DAG, qubits and clbits (and no other bit has a clock), and the stored
  \<^verbatim>\<open>node_start_time\<close> maps every node \<open>n\<close> of the DAG to \<open>cd - t1\<close>, where \<open>t1\<close> is the
  time recorded for \<open>n\<close> by the loop, and maps nothing else.
\<close>

theorem finalizer_flip:
  assumes "run gd g ps = (Inr (), ps')"
  shows "\<exists>st m cd.
           walk gd g (get_clbit_write_latency ps) (rev (topological_op_nodes g)) (init_state g)
             = Inr st \<and>
           schedule gd g (get_clbit_write_latency ps) = Inr (m, cd) \<and>
           ps_node_start_time ps' = Some m \<and>
           is_max_clock (idle_before st) (all_bits g) cd \<and>
           (\<forall>b. b \<notin> set (all_bits g) \<longrightarrow> map_of (idle_before st) b = None) \<and>
           (\<forall>n\<in>set (topological_op_nodes g).
              \<exists>t1. map_of (node_start_time st) n = Some t1 \<and> map_of m n = Some (cd - t1)) \<and>
           (\<forall>n. n \<notin> set (topological_op_nodes g) \<longrightarrow> map_of m n = None)"
proof -
  let ?lat = "get_clbit_write_latency ps"
  from assms obtain st m cd where
    w: "walk gd g ?lat (rev (topological_op_nodes g)) (init_state g) = Inr st"
    and f: "finalize st = Inr (m, cd)"
    and s: "schedule gd g ?lat = Inr (m, cd)"
    and ps': "ps' = ps\<lparr>ps_node_start_time := Some m\<rparr>"
    by (rule run_Inr)
  have keys: "fst ` set (idle_before st) = set (all_bits g)"
    using walk_keys [OF w] by (simp add: init_keys)
  have dist: "distinct (map fst (idle_before st))"
    using walk_distinct [OF w] by (simp add: init_distinct)
  from finalize_Inr [OF f dist keys]
  have mx: "is_max_clock (idle_before st) (all_bits g) cd"
    and m: "m = map (\<lambda>(n, t1). (n, cd - t1)) (node_start_time st)"
    by simp_all
  have none: "\<forall>b. b \<notin> set (all_bits g) \<longrightarrow> map_of (idle_before st) b = None"
    using keys by (simp add: map_of_eq_None_iff)
  have rk: "fst ` set (node_start_time st) = set (topological_op_nodes g)"
    using walk_recorded_keys [OF w] by (simp add: init_state_def)
  have in_nodes: "\<exists>t1. map_of (node_start_time st) n = Some t1 \<and> map_of m n = Some (cd - t1)"
    if "n \<in> set (topological_op_nodes g)" for n
  proof -
    from that rk have "map_of (node_start_time st) n \<noteq> None"
      by (simp add: map_of_eq_None_iff)
    then obtain t1 where "map_of (node_start_time st) n = Some t1" by blast
    then show ?thesis by (simp add: m map_of_flip)
  qed
  have out_nodes: "map_of m n = None" if "n \<notin> set (topological_op_nodes g)" for n
  proof -
    from that rk have "map_of (node_start_time st) n = None"
      by (simp add: map_of_eq_None_iff)
    then show ?thesis by (simp add: m map_of_flip)
  qed
  from w s ps' mx none in_nodes out_nodes show ?thesis by auto
qed

theorem finalizer_flip_witness:
  "run (table_duration [(2, 5), (3, 3)]) (ex_dag [ex_gate_b, ex_gate_a]) ex_ps =
     (Inr (), ex_ps\<lparr>ps_node_start_time := Some [(ex_gate_a, 5), (ex_gate_b, 0)]\<rparr>) \<and>
   (\<exists>st.
      walk (table_duration [(2, 5), (3, 3)]) (ex_dag [ex_gate_b, ex_gate_a]) 0
        [ex_gate_a, ex_gate_b] (init_state (ex_dag [ex_gate_b, ex_gate_a])) = Inr st \<and>
      schedule (table_duration [(2, 5), (3, 3)]) (ex_dag [ex_gate_b, ex_gate_a]) 0 =
        Inr ([(ex_gate_a, 5), (ex_gate_b, 0)], 8) \<and>
      is_max_clock (idle_before st) [Qubit 0, Clbit 0] 8 \<and>
      map_of (node_start_time st) ex_gate_a = Some 3 \<and>
      map_of (node_start_time st) ex_gate_b = Some 8)"
proof -
  let ?gd = "table_duration [(2, 5), (3, 3)]" and ?g = "ex_dag [ex_gate_b, ex_gate_a]"
  have r: "run ?gd ?g ex_ps =
      (Inr (), ex_ps\<lparr>ps_node_start_time := Some [(ex_gate_a, 5), (ex_gate_b, 0)]\<rparr>)"
    by (simp add: ex_defs run_defs)
  have s: "schedule ?gd ?g 0 = Inr ([(ex_gate_a, 5), (ex_gate_b, 0)], 8)"
    by (simp add: ex_defs run_defs)
  have l: "get_clbit_write_latency ex_ps = 0"
    by (simp add: get_clbit_write_latency_def ex_ps_def)
  have n: "topological_op_nodes ?g = [ex_gate_b, ex_gate_a]" "all_bits ?g = [Qubit 0, Clbit 0]"
    by (simp_all add: ex_dag_def all_bits_def)
  from finalizer_flip [OF r] obtain st m cd where
    "walk ?gd ?g 0 [ex_gate_a, ex_gate_b] (init_state ?g) = Inr st"
    "schedule ?gd ?g 0 = Inr (m, cd)"
    "is_max_clock (idle_before st) [Qubit 0, Clbit 0] cd"
    "\<forall>n\<in>{ex_gate_b, ex_gate_a}.
        \<exists>t1. map_of (node_start_time st) n = Some t1 \<and> map_of m n = Some (cd - t1)"
    unfolding l n by auto
  then show ?thesis
    using r s by (auto simp: ex_gate_a_def ex_gate_b_def)
qed

text \<open>
  Claim C8, as amended. The first check decides alone: when the DAG is not over exactly
  one quantum register with a register named \<^verbatim>\<open>q\<close>, the call fails with the error
  \<^verbatim>\<open>ALAP schedule runs on physical circuits only\<close>, whatever the time unit is. When that
  check passes and the time unit is \<^verbatim>\<open>stretch\<close>, the call fails with the error
  \<^verbatim>\<open>Scheduling cannot run on circuits with stretch durations.\<close> In both cases the property
  set is left as it was, and the outcome depends neither on the nodes and bits of the DAG
  nor on the duration oracle: no clock is created and no node is visited.
\<close>

theorem precondition_errors:
  "(len_dict (qregs g) \<noteq> 1 \<or> map_of (qregs g) ''q'' = None \<longrightarrow>
      run gd g ps = (Inl not_physical, ps)) \<and>
   (len_dict (qregs g) = 1 \<and> map_of (qregs g) ''q'' \<noteq> None \<and>
    ps_time_unit ps = Some ''stretch'' \<longrightarrow>
      run gd g ps = (Inl stretch_durations, ps))"
  by (simp add: run_def)

theorem precondition_errors_witness:
  "run (table_duration []) ex_dag_two_regs ex_ps = (Inl not_physical, ex_ps) \<and>
   run (table_duration []) (ex_dag [ex_gate_a]) ex_ps_stretch =
     (Inl stretch_durations, ex_ps_stretch)"
  using precondition_errors [of ex_dag_two_regs "table_duration []" ex_ps]
    precondition_errors [of "ex_dag [ex_gate_a]" "table_duration []" ex_ps_stretch]
  by (simp add: ex_dag_two_regs_def ex_dag_def ex_ps_stretch_def len_dict_def)

text \<open>
  Claim C8 as stated fails where both preconditions are violated: with the time unit
  \<^verbatim>\<open>stretch\<close> and a DAG over two registers, the call fails with the error of the register
  check, not with the error for stretch durations.
\<close>

theorem precondition_errors_counterexample:
  "ps_time_unit ex_ps_stretch = Some ''stretch'' \<and>
   run (table_duration []) ex_dag_two_regs ex_ps_stretch = (Inl not_physical, ex_ps_stretch) \<and>
   not_physical \<noteq> stretch_durations"
  by (simp add: run_def ex_dag_two_regs_def ex_ps_stretch_def len_dict_def not_physical_def
      stretch_durations_def)

text \<open>
  Claim C10. A DAG with exactly one quantum register whose name is not \<^verbatim>\<open>q\<close> has a
  register count of one and no register named \<^verbatim>\<open>q\<close>, and scheduling it fails with the
  error \<^verbatim>\<open>ALAP schedule runs on physical circuits only\<close>, the property set left as it
  was: the count of one alone does not pass the check.
\<close>

theorem renamed_register_rejected:
  assumes "qregs g = [(name, r)]" and "name \<noteq> ''q''"
  shows "len_dict (qregs g) = 1 \<and> map_of (qregs g) ''q'' = None \<and>
         run gd g ps = (Inl not_physical, ps)"
  using assms by (simp add: run_def len_dict_def)

theorem renamed_register_rejected_witness:
  "qregs ex_dag_renamed = [(''r'', 1)] \<and> ''r'' \<noteq> ''q'' \<and>
   len_dict (qregs ex_dag_renamed) = 1 \<and> map_of (qregs ex_dag_renamed) ''q'' = None \<and>
   run (table_duration [(3, 3)]) ex_dag_renamed ex_ps = (Inl not_physical, ex_ps)"
proof -
  have a: "qregs ex_dag_renamed = [(''r'', 1)]" by (simp add: ex_dag_renamed_def)
  have b: "''r'' \<noteq> ''q''" by simp
  from renamed_register_rejected [OF a b, of "table_duration [(3, 3)]" ex_ps] a b
  show ?thesis by simp
qed

text \<open>
  Claim C9. If the duration oracle fails for some node of the DAG, the pass fails and the
  property set is left as it was: no start-time mapping is stored. If moreover the
  preconditions hold and the loop gets through the nodes visited before that node, the
  pass fails with the oracle's error for that node.
\<close>

theorem duration_unavailable_aborts:
  assumes "topological_op_nodes g = earlier @ n # later"
    and "gd n g = Inl e"
  shows "(\<exists>e'. run gd g ps = (Inl e', ps)) \<and>
         (len_dict (qregs g) = 1 \<and> map_of (qregs g) ''q'' \<noteq> None \<and>
          ps_time_unit ps \<noteq> Some ''stretch'' \<and>
          (\<exists>st. walk gd g (get_clbit_write_latency ps) (rev later) (init_state g) = Inr st)
          \<longrightarrow> run gd g ps = (Inl e, ps))"
proof
  let ?lat = "get_clbit_write_latency ps"
  have "n \<in> set (rev (topological_op_nodes g))" using assms(1) by simp
  from walk_oracle_fails [of n _ gd g e ?lat "init_state g", OF this assms(2)] obtain e'
    where "walk gd g ?lat (rev (topological_op_nodes g)) (init_state g) = Inl e'" by blast
  then have "schedule gd g ?lat = Inl e'" by (simp add: schedule_def)
  then show "\<exists>e'. run gd g ps = (Inl e', ps)"
    by (auto simp: run_def)
next
  let ?lat = "get_clbit_write_latency ps"
  show "len_dict (qregs g) = 1 \<and> map_of (qregs g) ''q'' \<noteq> None \<and>
          ps_time_unit ps \<noteq> Some ''stretch'' \<and>
          (\<exists>st. walk gd g ?lat (rev later) (init_state g) = Inr st)
          \<longrightarrow> run gd g ps = (Inl e, ps)"
  proof
    assume a: "len_dict (qregs g) = 1 \<and> map_of (qregs g) ''q'' \<noteq> None \<and>
          ps_time_unit ps \<noteq> Some ''stretch'' \<and>
          (\<exists>st. walk gd g ?lat (rev later) (init_state g) = Inr st)"
    then obtain st where st: "walk gd g ?lat (rev later) (init_state g) = Inr st" by blast
    have "rev (topological_op_nodes g) = rev later @ n # rev earlier"
      using assms(1) by simp
    then have "walk gd g ?lat (rev (topological_op_nodes g)) (init_state g) = Inl e"
      using st assms(2) by (simp add: walk_append)
    then have "schedule gd g ?lat = Inl e" by (simp add: schedule_def)
    with a show "run gd g ps = (Inl e, ps)" by (simp add: run_schedule_Inl)
  qed
qed

theorem duration_unavailable_aborts_witness:
  "table_duration [(3, 3)] ex_gate_b (ex_dag [ex_gate_b, ex_gate_a]) =
     Inl (TranspilerError ''Duration not found'') \<and>
   walk (table_duration [(3, 3)]) (ex_dag [ex_gate_b, ex_gate_a]) 0 [ex_gate_a]
       (init_state (ex_dag [ex_gate_b, ex_gate_a])) =
     Inr \<lparr>idle_before = [(Qubit 0, 3), (Clbit 0, 0)], node_start_time = [(ex_gate_a, 3)]\<rparr> \<and>
   run (table_duration [(3, 3)]) (ex_dag [ex_gate_b, ex_gate_a]) ex_ps =
     (Inl (TranspilerError ''Duration not found''), ex_ps)"
proof -
  let ?gd = "table_duration [(3, 3)]" and ?g = "ex_dag [ex_gate_b, ex_gate_a]"
  have n: "topological_op_nodes ?g = [] @ ex_gate_b # [ex_gate_a]"
    by (simp add: ex_dag_def)
  have e: "?gd ex_gate_b ?g = Inl (TranspilerError ''Duration not found'')"
    by (simp add: table_duration_def ex_gate_b_def)
  have w: "walk ?gd ?g 0 [ex_gate_a] (init_state ?g) =
      Inr \<lparr>idle_before = [(Qubit 0, 3), (Clbit 0, 0)], node_start_time = [(ex_gate_a, 3)]\<rparr>"
    by (simp add: ex_defs run_defs)
  have p: "len_dict (qregs ?g) = 1" "map_of (qregs ?g) ''q'' \<noteq> None"
    "ps_time_unit ex_ps \<noteq> Some ''stretch''" "get_clbit_write_latency ex_ps = 0"
    by (simp_all add: ex_dag_def ex_ps_def len_dict_def get_clbit_write_latency_def)
  from duration_unavailable_aborts [of ?g "[]" ex_gate_b "[ex_gate_a]" ?gd _ ex_ps, OF n e] p w
  have "run ?gd ?g ex_ps = (Inl (TranspilerError ''Duration not found''), ex_ps)"
    by simp
  with e w show ?thesis by simp
qed

section \<open>Invariants of the timeline\<close>

text \<open>
  Claim C6, as amended. When every duration is nonnegative and the clbit write latency is
  at most the duration of every Measurement node, every clock is non-decreasing along the
  backward traversal: from any state of the loop, over any run of nodes that the loop
  gets through, a bit whose clock was \<open>v\<close> has a clock \<open>v'\<close> with \<open>v \<le> v'\<close> afterwards.
  A single node is the case of a one-node run, so every update writes a value at least
  the previous one.
\<close>

theorem idle_before_monotone:
  assumes "walk gd g lat ns st = Inr st'"
    and "\<forall>n\<in>set ns. \<forall>d. gd n g = Inr d \<longrightarrow> 0 \<le> d \<and> (op n = Measurement \<longrightarrow> lat \<le> d)"
    and "map_of (idle_before st) b = Some v"
  shows "\<exists>v'. map_of (idle_before st') b = Some v' \<and> v \<le> v'"
  using assms
proof (induction ns arbitrary: st v)
  case Nil
  then show ?case by simp
next
  case (Cons k ns)
  from Cons.prems(1) obtain d st1 where d: "gd k g = Inr d"
    and s: "schedule_node lat k d st = Inr st1"
    and w: "walk gd g lat ns st1 = Inr st'" by (rule walk_Cons_Inr)
  from Cons.prems(2) d have "0 \<le> d" "op k = Measurement \<longrightarrow> lat \<le> d" by simp_all
  from schedule_node_mono [OF s this Cons.prems(3)] obtain v1
    where v1: "map_of (idle_before st1) b = Some v1" "v \<le> v1" by blast
  from Cons.prems(2)
  have "\<forall>n\<in>set ns. \<forall>d. gd n g = Inr d \<longrightarrow> 0 \<le> d \<and> (op n = Measurement \<longrightarrow> lat \<le> d)"
    by simp
  from Cons.IH [OF w this v1(1)] v1(2) show ?case by force
qed

theorem idle_before_monotone_witness:
  "walk (table_duration [(0, 10)]) (ex_dag [ex_meas]) 4 [ex_meas] ex_clocks =
     Inr \<lparr>idle_before = [(Qubit 0, 17), (Clbit 0, 13)], node_start_time = [(ex_meas, 17)]\<rparr> \<and>
   map_of (idle_before ex_clocks) (Clbit 0) = Some 7 \<and>
   (\<exists>v'. map_of [(Qubit 0, 17), (Clbit 0, 13)] (Clbit 0) = Some v' \<and> (7::int) \<le> v')"
proof -
  let ?gd = "table_duration [(0, 10)]" and ?g = "ex_dag [ex_meas]"
  have w: "walk ?gd ?g 4 [ex_meas] ex_clocks =
     Inr \<lparr>idle_before = [(Qubit 0, 17), (Clbit 0, 13)], node_start_time = [(ex_meas, 17)]\<rparr>"
    by (simp add: ex_defs run_defs)
  have h: "\<forall>n\<in>set [ex_meas]. \<forall>d. ?gd n ?g = Inr d \<longrightarrow>
      0 \<le> d \<and> (op n = Measurement \<longrightarrow> 4 \<le> d)"
    by (auto simp: table_duration_def ex_meas_def)
  have v: "map_of (idle_before ex_clocks) (Clbit 0) = Some 7"
    by (simp add: ex_clocks_def)
  from idle_before_monotone [OF w h v] w v show ?thesis by simp
qed

text \<open>
  Claim C6 as stated fails for a nonnegative latency above the duration: a measurement of
  duration 1 on qubit 0 and clbit 0 with latency 5, processed when both clocks are 0,
  writes \<open>0 + (1 - 5) = -4\<close> to the clock of the clbit.
\<close>

theorem idle_before_monotone_counterexample:
  "(0::int) \<le> 5 \<and>
   map_of (idle_before (init_state (ex_dag [ex_meas]))) (Clbit 0) = Some 0 \<and>
   walk (table_duration [(0, 1)]) (ex_dag [ex_meas]) 5 [ex_meas] (init_state (ex_dag [ex_meas])) =
     Inr \<lparr>idle_before = [(Qubit 0, 1), (Clbit 0, - 4)], node_start_time = [(ex_meas, 1)]\<rparr> \<and>
   map_of [(Qubit 0, 1), (Clbit 0, - 4 :: int)] (Clbit 0) = Some (- 4) \<and> (- 4 :: int) < 0"
  by (simp add: ex_defs run_defs)

text \<open>
  The range of the start times where every node has a qubit. When the pass returns, with
  \<open>m\<close> the stored start times and \<open>cd\<close> the circuit duration: if every node has at least
  one qubit and every duration is nonnegative, the start time of every node lies in
  \<open>[0, cd]\<close>. And in every DAG, a node that occupies the end of the circuit (it is listed
  once, and no node after it in topological order shares a bit with it) has the start time
  \<open>cd\<close> minus its duration.
\<close>

lemma start_times_in_range_with_qubits:
  assumes "run gd g ps = (Inr (), ps')"
  shows "\<exists>m cd.
           schedule gd g (get_clbit_write_latency ps) = Inr (m, cd) \<and>
           ps_node_start_time ps' = Some m \<and>
           ((\<forall>n\<in>set (topological_op_nodes g). qargs n \<noteq> []) \<and>
            (\<forall>n\<in>set (topological_op_nodes g). \<forall>d. gd n g = Inr d \<longrightarrow> 0 \<le> d) \<longrightarrow>
            (\<forall>n\<in>set (topological_op_nodes g). \<exists>s. map_of m n = Some s \<and> 0 \<le> s \<and> s \<le> cd)) \<and>
           (\<forall>earlier n later d.
              topological_op_nodes g = earlier @ n # later \<and> n \<notin> set earlier \<and>
              (\<forall>k\<in>set later. set (qbits k @ cbits k) \<inter> set (qbits n @ cbits n) = {}) \<and>
              gd n g = Inr d \<longrightarrow>
              map_of m n = Some (cd - d))"
proof -
  let ?lat = "get_clbit_write_latency ps"
  let ?ns = "topological_op_nodes g"
  from assms obtain st m cd where
    w: "walk gd g ?lat (rev ?ns) (init_state g) = Inr st"
    and f: "finalize st = Inr (m, cd)"
    and s: "schedule gd g ?lat = Inr (m, cd)"
    and ps': "ps' = ps\<lparr>ps_node_start_time := Some m\<rparr>"
    by (rule run_Inr)
  have keys: "fst ` set (idle_before st) = set (all_bits g)"
    using walk_keys [OF w] by (simp add: init_keys)
  have dist: "distinct (map fst (idle_before st))"
    using walk_distinct [OF w] by (simp add: init_distinct)
  from finalize_Inr [OF f dist keys]
  have mx: "is_max_clock (idle_before st) (all_bits g) cd"
    and m: "m = map (\<lambda>(n, t1). (n, cd - t1)) (node_start_time st)"
    by simp_all
  have rk: "fst ` set (node_start_time st) = set ?ns"
    using walk_recorded_keys [OF w] by (simp add: init_state_def)
  have range: "\<exists>s. map_of m n = Some s \<and> 0 \<le> s \<and> s \<le> cd"
    if q: "\<forall>n\<in>set ?ns. qargs n \<noteq> []"
      and d: "\<forall>n\<in>set ?ns. \<forall>d. gd n g = Inr d \<longrightarrow> 0 \<le> d"
      and n: "n \<in> set ?ns" for n
  proof -
    have "clocks_cover st"
      using clocks_cover_walk [OF w clocks_cover_init] q d by simp
    moreover from n rk have "map_of (node_start_time st) n \<noteq> None"
      by (simp add: map_of_eq_None_iff)
    then obtain t1 where t1: "map_of (node_start_time st) n = Some t1" by blast
    ultimately obtain q v where "0 \<le> t1"
      and qv: "map_of (idle_before st) (Qubit q) = Some v" "t1 \<le> v"
      unfolding clocks_cover_def by blast
    from qv(1) have "Qubit q \<in> fst ` set (idle_before st)"
      by (metis map_of_eq_None_iff option.distinct(1))
    with keys have "Qubit q \<in> set (all_bits g)" by simp
    from is_max_clockD [OF mx this] qv(1) have "v \<le> cd" by simp
    with \<open>0 \<le> t1\<close> qv(2) have "0 \<le> cd - t1" "cd - t1 \<le> cd" by simp_all
    moreover have "map_of m n = Some (cd - t1)" using t1 by (simp add: m map_of_flip)
    ultimately show ?thesis by simp
  qed
  have last: "map_of m n = Some (cd - d)"
    if split: "?ns = earlier @ n # later" and fresh: "n \<notin> set earlier"
      and free: "\<forall>k\<in>set later. set (qbits k @ cbits k) \<inter> set (qbits n @ cbits n) = {}"
      and d: "gd n g = Inr d" for earlier n later d
  proof -
    have "rev ?ns = rev later @ n # rev earlier" using split by simp
    with w obtain s1 where w1: "walk gd g ?lat (rev later) (init_state g) = Inr s1"
      and w2: "walk gd g ?lat (n # rev earlier) s1 = Inr st"
      by (metis walk_append_Inr)
    from w2 d obtain s2 where st: "schedule_node ?lat n d s1 = Inr s2"
      and w3: "walk gd g ?lat (rev earlier) s2 = Inr st"
      by (auto split: sum.splits)
    let ?bits = "if op n = ConditionSupported then qbits n else qbits n @ cbits n"
    from st obtain t0 where
      mx0: "is_max_clock (idle_before s1) ?bits t0"
      and r: "map_of (node_start_time s2) = (map_of (node_start_time s1))(n \<mapsto> t0 + d)"
      and i: "\<forall>b. map_of (idle_before s2) b =
       (if b \<in> set (qbits n) then Some (t0 + d)
        else if op n = Measurement \<and> b \<in> set (cbits n) then Some (t0 + (d - ?lat))
        else map_of (idle_before s1) b)"
      by (rule schedule_node_clock)
    from mx0 obtain b where b: "b \<in> set ?bits" "map_of (idle_before s1) b = Some t0"
      unfolding is_max_clock_def by blast
    from b(1) have "b \<in> set (qbits n @ cbits n)" by (auto split: if_splits)
    with free have "\<forall>k\<in>set (rev later). b \<notin> set (qbits k @ cbits k)" by auto
    from walk_untouched [OF w1 this] b(2)
    have "map_of (idle_before (init_state g)) b = Some t0" by simp
    then have "t0 = 0" by (rule init_clock)
    with r have "map_of (node_start_time s2) n = Some d" by simp
    moreover from fresh have "n \<notin> set (rev earlier)" by simp
    from walk_recorded_other [OF w3 this]
    have "map_of (node_start_time st) n = map_of (node_start_time s2) n" .
    ultimately show ?thesis by (simp add: m map_of_flip)
  qed
  show ?thesis
  proof (intro exI conjI)
    show "schedule gd g ?lat = Inr (m, cd)" by (rule s)
    show "ps_node_start_time ps' = Some m" by (simp add: ps')
    show "(\<forall>n\<in>set ?ns. qargs n \<noteq> []) \<and>
        (\<forall>n\<in>set ?ns. \<forall>d. gd n g = Inr d \<longrightarrow> 0 \<le> d) \<longrightarrow>
        (\<forall>n\<in>set ?ns. \<exists>s. map_of m n = Some s \<and> 0 \<le> s \<and> s \<le> cd)"
      using range by blast
    show "\<forall>earlier n later d.
        ?ns = earlier @ n # later \<and> n \<notin> set earlier \<and>
        (\<forall>k\<in>set later. set (qbits k @ cbits k) \<inter> set (qbits n @ cbits n) = {}) \<and>
        gd n g = Inr d \<longrightarrow>
        map_of m n = Some (cd - d)"
      using last by blast
  qed
qed

text \<open>
  Claim C7: every node's final start time lies in \<open>[0, circuit_duration]\<close>, for every
  input graph. The code breaks it for a node without qubits. Its comments call the
  maximum of the clocks the \<^verbatim>\<open>very end of t1\<close> (line 86) and the
  \<^verbatim>\<open>entire circuit duration\<close> (lines 89 and 90), but \<open>t1\<close> is written to the clocks of
  the qubits of the node only (lines 81 and 82). A directive on clbit 0 alone, of duration
  5, in a DAG over qubit 0 and clbit 0 records \<open>t1 = 5\<close> and advances no clock: the loop
  ends with both clocks at 0, the circuit duration is 0, and the start time of the node is
  \<open>0 - 5 = -5\<close>, outside \<open>[0, 0]\<close>.
\<close>

theorem start_time_negative_without_qubits:
  "qargs ex_store = [] \<and> cargs ex_store = [0] \<and>
   table_duration [(4, 5)] ex_store (ex_dag [ex_store]) = Inr 5 \<and>
   walk (table_duration [(4, 5)]) (ex_dag [ex_store]) 0 [ex_store]
       (init_state (ex_dag [ex_store])) =
     Inr \<lparr>idle_before = [(Qubit 0, 0), (Clbit 0, 0)], node_start_time = [(ex_store, 5)]\<rparr> \<and>
   schedule (table_duration [(4, 5)]) (ex_dag [ex_store]) 0 = Inr ([(ex_store, - 5)], 0) \<and>
   map_of [(ex_store, - 5 :: int)] ex_store = Some (- 5) \<and> (- 5 :: int) < 0"
  by (simp add: ex_defs run_defs)

text \<open>The pass stores these start times in the property set.\<close>

lemma run_without_qubits:
  "run (table_duration [(4, 5)]) (ex_dag [ex_store]) ex_ps =
     (Inr (), ex_ps\<lparr>ps_node_start_time := Some [(ex_store, - 5)]\<rparr>)"
  by (simp add: ex_defs run_defs)

text \<open>
  Claim C4. Let \<open>B\<close> come before \<open>A\<close> in the topological order of a DAG that lists every
  node once, let the two share a qubit, and let every duration be nonnegative. When the
  pass returns, the stored start times satisfy
  \<open>start_time(B) + duration(B) \<le> start_time(A)\<close>.
\<close>

theorem precedence:
  assumes run: "run gd g ps = (Inr (), ps')"
    and split: "topological_op_nodes g = xs @ B # ys @ A # zs"
    and dist: "distinct (topological_op_nodes g)"
    and qA: "q \<in> set (qargs A)" and qB: "q \<in> set (qargs B)"
    and nonneg: "\<forall>n\<in>set (topological_op_nodes g). \<forall>d. gd n g = Inr d \<longrightarrow> 0 \<le> d"
    and dB: "gd B g = Inr dB"
  shows "\<exists>m sA sB. ps_node_start_time ps' = Some m \<and>
           map_of m A = Some sA \<and> map_of m B = Some sB \<and> sB + dB \<le> sA"
proof -
  let ?lat = "get_clbit_write_latency ps"
  let ?ns = "topological_op_nodes g"
  from run obtain st m cd where
    w: "walk gd g ?lat (rev ?ns) (init_state g) = Inr st"
    and f: "finalize st = Inr (m, cd)"
    and ps': "ps' = ps\<lparr>ps_node_start_time := Some m\<rparr>"
    by (rule run_Inr)
  from f have m: "m = map (\<lambda>(n, t1). (n, cd - t1)) (node_start_time st)"
    by (auto simp: finalize_def split: sum.splits)
  from dist split have notin: "A \<notin> set ys" "A \<notin> set xs" "B \<notin> set xs" "A \<noteq> B"
    by auto
  have "rev ?ns = rev zs @ A # (rev ys @ B # rev xs)" using split by simp
  with w obtain s1 where
    w2: "walk gd g ?lat (A # (rev ys @ B # rev xs)) s1 = Inr st"
    by (metis walk_append_Inr)
  from w2 obtain dA s2 where
    stA: "schedule_node ?lat A dA s1 = Inr s2"
    and w3: "walk gd g ?lat (rev ys @ B # rev xs) s2 = Inr st"
    by (rule walk_Cons_Inr)
  from w3 obtain s3 where
    w4: "walk gd g ?lat (rev ys) s2 = Inr s3"
    and w5: "walk gd g ?lat (B # rev xs) s3 = Inr st"
    by (rule walk_append_Inr)
  from w5 dB obtain s4 where
    stB: "schedule_node ?lat B dB s3 = Inr s4"
    and w6: "walk gd g ?lat (rev xs) s4 = Inr st"
    by (auto split: sum.splits)
  \<comment> \<open>the step of \<open>A\<close>\<close>
  from stA obtain tA where
    "is_max_clock (idle_before s1)
       (if op A = ConditionSupported then qbits A else qbits A @ cbits A) tA"
    and rA: "map_of (node_start_time s2) = (map_of (node_start_time s1))(A \<mapsto> tA + dA)"
    and iA: "\<forall>b. map_of (idle_before s2) b =
       (if b \<in> set (qbits A) then Some (tA + dA)
        else if op A = Measurement \<and> b \<in> set (cbits A) then Some (tA + (dA - ?lat))
        else map_of (idle_before s1) b)"
    by (rule schedule_node_clock)
  from iA qA have c2: "map_of (idle_before s2) (Qubit q) = Some (tA + dA)" by simp
  \<comment> \<open>the nodes between \<open>A\<close> and \<open>B\<close>\<close>
  from nonneg split have "\<forall>n\<in>set (rev ys). \<forall>d. gd n g = Inr d \<longrightarrow> 0 \<le> d" by auto
  from walk_qubit_mono [OF w4 this c2] obtain v3 where
    c3: "map_of (idle_before s3) (Qubit q) = Some v3" "tA + dA \<le> v3" by blast
  from notin(1) have "A \<notin> set (rev ys)" by simp
  from walk_recorded_other [OF w4 this] rA
  have r3: "map_of (node_start_time s3) A = Some (tA + dA)" by simp
  \<comment> \<open>the step of \<open>B\<close>\<close>
  from stB obtain tB where
    mB: "is_max_clock (idle_before s3)
       (if op B = ConditionSupported then qbits B else qbits B @ cbits B) tB"
    and rB: "map_of (node_start_time s4) = (map_of (node_start_time s3))(B \<mapsto> tB + dB)"
    and "\<forall>b. map_of (idle_before s4) b =
       (if b \<in> set (qbits B) then Some (tB + dB)
        else if op B = Measurement \<and> b \<in> set (cbits B) then Some (tB + (dB - ?lat))
        else map_of (idle_before s3) b)"
    by (rule schedule_node_clock)
  from qB have "Qubit q \<in> set (if op B = ConditionSupported then qbits B else qbits B @ cbits B)"
    by simp
  from is_max_clockD [OF mB this] c3(1) have "v3 \<le> tB" by simp
  with c3(2) have le: "tA + dA \<le> tB" by simp
  from rB r3 notin(4) have r4: "map_of (node_start_time s4) A = Some (tA + dA)"
    "map_of (node_start_time s4) B = Some (tB + dB)" by simp_all
  \<comment> \<open>the nodes before \<open>B\<close>\<close>
  from notin(2,3) have "A \<notin> set (rev xs)" "B \<notin> set (rev xs)" by simp_all
  with walk_recorded_other [OF w6] r4
  have "map_of (node_start_time st) A = Some (tA + dA)"
    "map_of (node_start_time st) B = Some (tB + dB)" by simp_all
  then have "map_of m A = Some (cd - (tA + dA))" "map_of m B = Some (cd - (tB + dB))"
    by (simp_all add: m map_of_flip)
  moreover have "cd - (tB + dB) + dB \<le> cd - (tA + dA)" using le by simp
  moreover have "ps_node_start_time ps' = Some m" by (simp add: ps')
  ultimately show ?thesis by blast
qed

theorem precedence_witness:
  "run (table_duration [(2, 5), (3, 3)]) (ex_dag [ex_gate_b, ex_gate_a]) ex_ps =
     (Inr (), ex_ps\<lparr>ps_node_start_time := Some [(ex_gate_a, 5), (ex_gate_b, 0)]\<rparr>) \<and>
   (\<exists>sA sB. map_of [(ex_gate_a, 5), (ex_gate_b, 0)] ex_gate_a = Some sA \<and>
      map_of [(ex_gate_a, 5), (ex_gate_b, 0)] ex_gate_b = Some sB \<and> sB + 5 \<le> (sA::int))"
proof -
  let ?gd = "table_duration [(2, 5), (3, 3)]" and ?g = "ex_dag [ex_gate_b, ex_gate_a]"
  have r: "run ?gd ?g ex_ps =
      (Inr (), ex_ps\<lparr>ps_node_start_time := Some [(ex_gate_a, 5), (ex_gate_b, 0)]\<rparr>)"
    by (simp add: ex_defs run_defs)
  have n: "topological_op_nodes ?g = [] @ ex_gate_b # [] @ ex_gate_a # []"
    by (simp add: ex_dag_def)
  have d: "distinct (topological_op_nodes ?g)"
    by (simp add: ex_dag_def ex_gate_a_def ex_gate_b_def)
  have qa: "0 \<in> set (qargs ex_gate_a)" and qb: "0 \<in> set (qargs ex_gate_b)"
    by (simp_all add: ex_gate_a_def ex_gate_b_def)
  have nn: "\<forall>n\<in>set (topological_op_nodes ?g). \<forall>d. ?gd n ?g = Inr d \<longrightarrow> 0 \<le> d"
    by (auto simp: ex_dag_def table_duration_def ex_gate_a_def ex_gate_b_def)
  have db: "?gd ex_gate_b ?g = Inr 5"
    by (simp add: table_duration_def ex_gate_b_def)
  from precedence [OF r n d qa qb nn db] r show ?thesis by simp
qed

end
